theory Spec2Isabelle
  imports Complex_Main
begin

section \<open>Data model of the Minesweeper engine\<close>

text \<open>
  The engine of \<^verbatim>\<open>src/main.py\<close>: the enumerations \<^verbatim>\<open>GameState\<close> and
  \<^verbatim>\<open>CellState\<close>, the frozen dataclass \<^verbatim>\<open>Position\<close> and the fields of
  \<^verbatim>\<open>MinesweeperGame\<close>. Python integers are \<open>int\<close>, Python sets are HOL sets,
  dictionaries are maps, and clock readings (\<^verbatim>\<open>time.time()\<close>) are real numbers.
\<close>

datatype GameState = READY | PLAYING | WON | LOST

datatype CellState = HIDDEN | REVEALED | FLAGGED | QUESTIONED

datatype Position = Position (row: int) (col: int)

datatype error = ValueError

record game =
  rows :: int
  cols :: int
  total_mines :: int
  state :: GameState
  start_time :: real
  elapsed_time :: real
  mines :: "Position set"
  cell_states :: "Position \<rightharpoonup> CellState"
  revealed :: "Position set"
  flags :: "Position set"
  adjacent_cache :: "Position \<rightharpoonup> int"

text \<open>
  What the world outside the engine answers during one call: the random numbers that
  drive \<^verbatim>\<open>random.sample\<close>, the clock reading taken by \<^verbatim>\<open>initialize_mines\<close>,
  the clock reading taken when the game ends, and the order in which Python iterates
  over a set (smaller rank first).
\<close>

record world =
  sample_seed :: "nat list"
  clock_init :: real
  clock_end :: real
  iteration_rank :: "Position \<Rightarrow> nat"

section \<open>Position.neighbors\<close>

text \<open>The comprehension of \<^verbatim>\<open>Position.neighbors\<close>, in its generation order, and the
  set it builds.\<close>

definition neighbors_list :: "Position \<Rightarrow> int \<Rightarrow> int \<Rightarrow> Position list" where
  "neighbors_list p max_row max_col =
     [Position (row p + dr) (col p + dc).
        dr \<leftarrow> [-1, 0, 1], dc \<leftarrow> [-1, 0, 1],
        (dr \<noteq> 0 \<or> dc \<noteq> 0) \<and> 0 \<le> row p + dr \<and> row p + dr < max_row
          \<and> 0 \<le> col p + dc \<and> col p + dc < max_col]"

definition neighbors :: "Position \<Rightarrow> int \<Rightarrow> int \<Rightarrow> Position set" where
  "neighbors p max_row max_col = set (neighbors_list p max_row max_col)"

section \<open>Construction and reset\<close>

definition new_game :: "int \<Rightarrow> int \<Rightarrow> int \<Rightarrow> game" where
  "new_game r c m =
     \<lparr>rows = r, cols = c, total_mines = m, state = READY, start_time = 0,
      elapsed_time = 0, mines = {}, cell_states = Map.empty, revealed = {},
      flags = {}, adjacent_cache = Map.empty\<rparr>"

definition reset :: "game \<Rightarrow> game" where
  "reset g =
     g\<lparr>mines := {}, cell_states := Map.empty, revealed := {}, flags := {},
       adjacent_cache := Map.empty, state := READY, start_time := 0, elapsed_time := 0\<rparr>"

text \<open>Reading the \<^verbatim>\<open>defaultdict\<close> of cell states: a missing key reads as
  \<^verbatim>\<open>HIDDEN\<close>.\<close>

definition cell_state :: "game \<Rightarrow> Position \<Rightarrow> CellState" where
  "cell_state g p = (case cell_states g p of None \<Rightarrow> HIDDEN | Some s \<Rightarrow> s)"

text \<open>\<^verbatim>\<open>adjacent_cache.get(pos, 0)\<close>.\<close>

definition cache_get :: "game \<Rightarrow> Position \<Rightarrow> int" where
  "cache_get g p = (case adjacent_cache g p of None \<Rightarrow> 0 | Some n \<Rightarrow> n)"

section \<open>Mine placement\<close>

text \<open>All cells of the grid, in the order of the two nested \<^verbatim>\<open>range\<close> loops.\<close>

definition grid_positions :: "int \<Rightarrow> int \<Rightarrow> Position list" where
  "grid_positions r c = [Position i j. i \<leftarrow> [0..r - 1], j \<leftarrow> [0..c - 1]]"

definition in_grid :: "game \<Rightarrow> Position \<Rightarrow> bool" where
  "in_grid g p \<longleftrightarrow> 0 \<le> row p \<and> row p < rows g \<and> 0 \<le> col p \<and> col p < cols g"

text \<open>
  \<^verbatim>\<open>random.sample(population, k)\<close>: \<open>k\<close> draws without replacement. Each draw takes
  the next random number, reduced modulo the size of what is left of the population.
  The library raises \<^verbatim>\<open>ValueError\<close> unless \<open>0 \<le> k \<le> len(population)\<close>.
\<close>

fun sample :: "nat list \<Rightarrow> 'a list \<Rightarrow> nat \<Rightarrow> 'a list" where
  "sample rs pool 0 = []"
| "sample rs pool (Suc k) =
     (if pool = [] then []
      else let i = (case rs of [] \<Rightarrow> 0 | r # _ \<Rightarrow> r mod length pool)
           in pool ! i # sample (tl rs) (take i pool @ drop (Suc i) pool) k)"

definition random_sample :: "nat list \<Rightarrow> 'a list \<Rightarrow> int \<Rightarrow> error + 'a list" where
  "random_sample rs population k =
     (if k < 0 \<or> int (length population) < k then Inl ValueError
      else Inr (sample rs population (nat k)))"

text \<open>\<^verbatim>\<open>_cache_adjacent_counts\<close>: one entry per cell of the grid.\<close>

definition cache_adjacent_counts :: "game \<Rightarrow> game" where
  "cache_adjacent_counts g =
     g\<lparr>adjacent_cache :=
         map_of [(p, int (card (neighbors p (rows g) (cols g) \<inter> mines g))).
                   p \<leftarrow> grid_positions (rows g) (cols g)]\<rparr>"

definition safe_zone :: "game \<Rightarrow> Position \<Rightarrow> Position set" where
  "safe_zone g first_click = insert first_click (neighbors first_click (rows g) (cols g))"

definition available :: "game \<Rightarrow> Position \<Rightarrow> Position list" where
  "available g first_click =
     filter (\<lambda>p. p \<notin> safe_zone g first_click) (grid_positions (rows g) (cols g))"

definition initialize_mines :: "world \<Rightarrow> game \<Rightarrow> Position \<Rightarrow> error + game" where
  "initialize_mines w g first_click =
     (case random_sample (sample_seed w) (available g first_click)
             (min (total_mines g) (int (length (available g first_click)))) of
        Inl e \<Rightarrow> Inl e
      | Inr ms \<Rightarrow>
          Inr ((cache_adjacent_counts (g\<lparr>mines := set ms\<rparr>))
                 \<lparr>state := PLAYING, start_time := clock_init w\<rparr>))"

section \<open>Revealing cells\<close>

text \<open>Lines 140--141 of the source: the popped cell is marked revealed.\<close>

definition mark_revealed :: "game \<Rightarrow> Position \<Rightarrow> game" where
  "mark_revealed g current =
     g\<lparr>revealed := insert current (revealed g),
       cell_states := (cell_states g)(current \<mapsto> REVEALED)\<rparr>"

text \<open>\<^verbatim>\<open>current.neighbors(rows, cols) - revealed - flags\<close>.\<close>

definition hidden_neighbors :: "game \<Rightarrow> Position \<Rightarrow> Position list" where
  "hidden_neighbors g p =
     filter (\<lambda>n. n \<notin> revealed g \<and> n \<notin> flags g) (neighbors_list p (rows g) (cols g))"

text \<open>\<^verbatim>\<open>to_reveal |= new\<close> on a work list without duplicates.\<close>

definition union_worklist :: "Position list \<Rightarrow> Position list \<Rightarrow> Position list" where
  "union_worklist ws new = ws @ filter (\<lambda>n. n \<notin> set ws) new"

lemma neighbors_list_in_grid:
  "n \<in> set (neighbors_list p r c) \<Longrightarrow> 0 \<le> row n \<and> row n < r \<and> 0 \<le> col n \<and> col n < c"
  by (auto simp: neighbors_list_def)

lemma finite_in_grid: "finite {p. in_grid g p}"
proof -
  have "{p. in_grid g p} \<subseteq> (\<lambda>(i, j). Position i j) ` ({0..<rows g} \<times> {0..<cols g})"
  proof
    fix p assume "p \<in> {p. in_grid g p}"
    then have "(row p, col p) \<in> {0..<rows g} \<times> {0..<cols g}" by (simp add: in_grid_def)
    then have "(\<lambda>(i, j). Position i j) (row p, col p) \<in> (\<lambda>(i, j). Position i j) ` ({0..<rows g} \<times> {0..<cols g})"
      by (rule imageI)
    then show "p \<in> (\<lambda>(i, j). Position i j) ` ({0..<rows g} \<times> {0..<cols g})" by simp
  qed
  then show ?thesis by (rule finite_subset) simp
qed

lemma hidden_neighbors_in_grid: "n \<in> set (hidden_neighbors g p) \<Longrightarrow> in_grid g n"
  using neighbors_list_in_grid[of n p "rows g" "cols g"] by (auto simp: hidden_neighbors_def in_grid_def)

lemma in_grid_mark [simp]: "in_grid (mark_revealed g c) = in_grid g"
  by (simp add: in_grid_def mark_revealed_def fun_eq_iff)

lemma revealed_mark [simp]: "revealed (mark_revealed g c) = insert c (revealed g)"
  by (simp add: mark_revealed_def)

text \<open>The measure of the fill loop: the cells still hidden, then the length of the work
  list.\<close>

definition fill_measure :: "game \<times> Position list \<Rightarrow> nat \<times> nat" where
  "fill_measure = (\<lambda>(g, ws). (card (({p. in_grid g p} \<union> set ws) - revealed g), length ws))"

text \<open>
  The loop of lines 134--145. The work list holds the set \<^verbatim>\<open>to_reveal\<close> without
  duplicates; \<^verbatim>\<open>pop\<close> takes its head.
\<close>

function flood_fill :: "game \<Rightarrow> Position list \<Rightarrow> game" where
  "flood_fill g [] = g"
| "flood_fill g (current # to_reveal) =
     (if current \<in> revealed g then flood_fill g to_reveal
      else if cache_get (mark_revealed g current) current = 0
      then flood_fill (mark_revealed g current)
             (union_worklist to_reveal (hidden_neighbors (mark_revealed g current) current))
      else flood_fill (mark_revealed g current) to_reveal)"
  by pat_completeness auto

lemma fill_measure_skip:
  "current \<in> revealed g \<Longrightarrow>
   (fill_measure (g, to_reveal), fill_measure (g, current # to_reveal)) \<in> less_than <*lex*> less_than"
proof -
  assume a: "current \<in> revealed g"
  have "({p. in_grid g p} \<union> set (current # to_reveal)) - revealed g = ({p. in_grid g p} \<union> set to_reveal) - revealed g"
    using a by auto
  then show ?thesis by (simp add: fill_measure_def)
qed

lemma fill_measure_reveal:
  assumes "current \<notin> revealed g" and "set ws' \<subseteq> {p. in_grid g p} \<union> set to_reveal"
  shows "(fill_measure (mark_revealed g current, ws'), fill_measure (g, current # to_reveal))
           \<in> less_than <*lex*> less_than"
proof -
  let ?A = "({p. in_grid g p} \<union> set ws') - insert current (revealed g)"
  let ?B = "({p. in_grid g p} \<union> set (current # to_reveal)) - revealed g"
  have fin: "finite ?B" using finite_in_grid[of g] by simp
  have "?A \<subseteq> ?B" using assms(2) by auto
  moreover have "current \<in> ?B" "current \<notin> ?A" using assms(1) by auto
  ultimately have "?A \<subset> ?B" by blast
  then have "card ?A < card ?B" using fin by (rule psubset_card_mono[rotated])
  then show ?thesis by (simp add: fill_measure_def)
qed

termination flood_fill
proof (relation "inv_image (less_than <*lex*> less_than) fill_measure")
  show "wf (inv_image (less_than <*lex*> less_than) fill_measure)"
    by (intro wf_inv_image wf_lex_prod wf_less_than)
next
  fix g :: game and current :: Position and to_reveal :: "Position list"
  assume "current \<in> revealed g"
  then show "((g, to_reveal), (g, current # to_reveal)) \<in> inv_image (less_than <*lex*> less_than) fill_measure"
    unfolding in_inv_image by (rule fill_measure_skip)
next
  fix g :: game and current :: Position and to_reveal :: "Position list"
  assume a: "current \<notin> revealed g"
  have "set (union_worklist to_reveal (hidden_neighbors (mark_revealed g current) current))
          \<subseteq> {p. in_grid g p} \<union> set to_reveal"
    using hidden_neighbors_in_grid[of _ "mark_revealed g current" current]
    by (auto simp: union_worklist_def)
  then show "((mark_revealed g current, union_worklist to_reveal (hidden_neighbors (mark_revealed g current) current)),
          (g, current # to_reveal)) \<in> inv_image (less_than <*lex*> less_than) fill_measure"
    unfolding in_inv_image using a by (intro fill_measure_reveal)
next
  fix g :: game and current :: Position and to_reveal :: "Position list"
  assume a: "current \<notin> revealed g"
  show "((mark_revealed g current, to_reveal), (g, current # to_reveal)) \<in> inv_image (less_than <*lex*> less_than) fill_measure"
    unfolding in_inv_image using a by (intro fill_measure_reveal) auto
qed

text \<open>\<^verbatim>\<open>reveal_cell\<close>, lines 122--153: everything after the lazy mine placement.\<close>

definition reveal_placed :: "world \<Rightarrow> game \<Rightarrow> Position \<Rightarrow> bool \<times> game" where
  "reveal_placed w g pos =
     (if (state g \<noteq> PLAYING \<and> state g \<noteq> READY) \<or> pos \<in> revealed g \<or> pos \<in> flags g
      then (False, g)
      else if pos \<in> mines g
      then (False, g\<lparr>state := LOST, elapsed_time := clock_end w - start_time g\<rparr>)
      else let g' = flood_fill g [pos] in
        if int (card (revealed g')) + int (card (mines g')) = rows g' * cols g'
        then (True, g'\<lparr>state := WON, elapsed_time := clock_end w - start_time g',
                         flags := mines g'\<rparr>)
        else (True, g'))"

definition reveal_cell :: "world \<Rightarrow> game \<Rightarrow> Position \<Rightarrow> error + bool \<times> game" where
  "reveal_cell w g pos =
     (if state g = READY
      then (case initialize_mines w g pos of
              Inl e \<Rightarrow> Inl e
            | Inr g' \<Rightarrow> Inr (reveal_placed w g' pos))
      else Inr (reveal_placed w g pos))"

section \<open>Flags and chords\<close>

definition toggle_flag :: "game \<Rightarrow> Position \<Rightarrow> game" where
  "toggle_flag g pos =
     (if pos \<in> revealed g \<or> state g \<noteq> PLAYING then g
      else let fl = (flags g - {pos}) \<union> ({pos} - flags g)
           in g\<lparr>flags := fl,
                cell_states := (cell_states g)(pos \<mapsto> (if pos \<in> fl then FLAGGED else HIDDEN))\<rparr>)"

text \<open>\<^verbatim>\<open>all(self.reveal_cell(n) for n in ...)\<close>: the generator is consumed up to the
  first reveal that returns \<^verbatim>\<open>False\<close>.\<close>

fun all_reveal :: "world \<Rightarrow> game \<Rightarrow> Position list \<Rightarrow> error + bool \<times> game" where
  "all_reveal w g [] = Inr (True, g)"
| "all_reveal w g (n # ns) =
     (case reveal_cell w g n of
        Inl e \<Rightarrow> Inl e
      | Inr (b, g') \<Rightarrow> if b then all_reveal w g' ns else Inr (False, g'))"

definition auto_reveal_neighbors :: "world \<Rightarrow> game \<Rightarrow> Position \<Rightarrow> error + bool \<times> game" where
  "auto_reveal_neighbors w g pos =
     (if pos \<notin> revealed g \<or> state g \<noteq> PLAYING then Inr (False, g)
      else let flagged_neighbors = neighbors pos (rows g) (cols g) \<inter> flags g
           in if int (card flagged_neighbors) = cache_get g pos
              then all_reveal w g (sort_key (iteration_rank w) (hidden_neighbors g pos))
              else Inr (False, g))"

section \<open>Sessions\<close>

text \<open>
  The calls the presentation layer makes. A call that raises leaves the engine as it
  was: the only raise, in \<^verbatim>\<open>random.sample\<close>, happens before any field is assigned.
\<close>

datatype call = Reveal_cell Position | Toggle_flag Position
  | Auto_reveal_neighbors Position | Reset

fun apply_call :: "world \<Rightarrow> game \<Rightarrow> call \<Rightarrow> game" where
  "apply_call w g (Reveal_cell p) =
     (case reveal_cell w g p of Inl e \<Rightarrow> g | Inr (b, g') \<Rightarrow> g')"
| "apply_call w g (Toggle_flag p) = toggle_flag g p"
| "apply_call w g (Auto_reveal_neighbors p) =
     (case auto_reveal_neighbors w g p of Inl e \<Rightarrow> g | Inr (b, g') \<Rightarrow> g')"
| "apply_call w g Reset = reset g"

fun run :: "game \<Rightarrow> (world \<times> call) list \<Rightarrow> game" where
  "run g [] = g"
| "run g ((w, c) # cs) = run (apply_call w g c) cs"

inductive reachable :: "game \<Rightarrow> bool" where
  fresh: "reachable (new_game r c m)"
| step: "reachable g \<Longrightarrow> reachable (apply_call w g c)"

lemma set_sample: "set (sample rs pool k) \<subseteq> set pool"
proof (induction k arbitrary: rs pool)
  case 0
  then show ?case by simp
next
  case (Suc k)
  show ?case
  proof (cases "pool = []")
    case True
    then show ?thesis by simp
  next
    case False
    define i where "i = (case rs of [] \<Rightarrow> 0 | r # _ \<Rightarrow> r mod length pool)"
    have i: "i < length pool" using False by (auto simp: i_def split: list.splits)
    have "set (take i pool @ drop (Suc i) pool) \<subseteq> set pool"
      by (auto dest: in_set_takeD in_set_dropD)
    with Suc.IH[of "tl rs" "take i pool @ drop (Suc i) pool"] i False
    show ?thesis by (auto simp: i_def[symmetric] Let_def)
  qed
qed

lemma distinct_sample: "distinct pool \<Longrightarrow> distinct (sample rs pool k)"
proof (induction k arbitrary: rs pool)
  case 0
  then show ?case by simp
next
  case (Suc k)
  show ?case
  proof (cases "pool = []")
    case True
    then show ?thesis by simp
  next
    case False
    define i where "i = (case rs of [] \<Rightarrow> 0 | r # _ \<Rightarrow> r mod length pool)"
    define rest where "rest = take i pool @ drop (Suc i) pool"
    have i: "i < length pool" using False by (auto simp: i_def split: list.splits)
    have pool: "pool = take i pool @ pool ! i # drop (Suc i) pool"
      using i by (simp add: id_take_nth_drop)
    have "distinct (take i pool @ pool ! i # drop (Suc i) pool)"
      using Suc.prems pool by simp
    then have d: "distinct rest" and n: "pool ! i \<notin> set rest"
      by (auto simp: rest_def)
    have "set (sample (tl rs) rest k) \<subseteq> set rest" by (rule set_sample)
    with n have "pool ! i \<notin> set (sample (tl rs) rest k)" by blast
    moreover have "distinct (sample (tl rs) rest k)" using d by (rule Suc.IH)
    ultimately show ?thesis using False
      by (simp add: i_def[symmetric] rest_def[symmetric] Let_def)
  qed
qed

lemma length_sample: "k \<le> length pool \<Longrightarrow> length (sample rs pool k) = k"
proof (induction k arbitrary: rs pool)
  case 0
  then show ?case by simp
next
  case (Suc k)
  then have ne: "pool \<noteq> []" by auto
  define i where "i = (case rs of [] \<Rightarrow> 0 | r # _ \<Rightarrow> r mod length pool)"
  have i: "i < length pool" using ne by (auto simp: i_def split: list.splits)
  have "k \<le> length (take i pool @ drop (Suc i) pool)" using Suc.prems i by simp
  then have "length (sample (tl rs) (take i pool @ drop (Suc i) pool) k) = k" by (rule Suc.IH)
  then show ?case using ne by (simp add: i_def[symmetric] Let_def)
qed

lemma card_sample: "distinct pool \<Longrightarrow> k \<le> length pool \<Longrightarrow> card (set (sample rs pool k)) = k"
  using distinct_sample[of pool rs k] length_sample[of k pool rs] by (simp add: distinct_card)

text \<open>Every selection of \<open>k\<close> distinct members of the population is drawn for some
  random numbers.\<close>

lemma sample_complete:
  "distinct ys \<Longrightarrow> set ys \<subseteq> set pool \<Longrightarrow> distinct pool \<Longrightarrow> \<exists>rs. sample rs pool (length ys) = ys"
proof (induction ys arbitrary: pool)
  case Nil
  then show ?case by simp
next
  case (Cons y ys)
  from Cons.prems have "y \<in> set pool" by simp
  then obtain i where i: "i < length pool" "pool ! i = y" by (auto simp: in_set_conv_nth)
  define rest where "rest = take i pool @ drop (Suc i) pool"
  have pool: "pool = take i pool @ y # drop (Suc i) pool"
    using i by (metis id_take_nth_drop)
  have dp: "distinct (take i pool @ y # drop (Suc i) pool)" using Cons.prems(3) pool by simp
  have sp: "set pool = set (take i pool @ y # drop (Suc i) pool)" using pool by simp
  have "distinct rest" using dp by (auto simp: rest_def)
  moreover have "set ys \<subseteq> set rest"
  proof
    fix x assume x: "x \<in> set ys"
    then have "x \<noteq> y" using Cons.prems(1) by auto
    moreover have "x \<in> set pool" using x Cons.prems(2) by auto
    ultimately show "x \<in> set rest" using sp by (auto simp: rest_def)
  qed
  moreover have "distinct ys" using Cons.prems(1) by simp
  ultimately obtain rs where rs: "sample rs rest (length ys) = ys" using Cons.IH by blast
  have ne: "pool \<noteq> []" using i by auto
  have "sample (i # rs) pool (length (y # ys)) = y # ys"
    using i ne rs by (simp add: rest_def Let_def)
  then show ?case by blast
qed

lemma set_grid_positions:
  "set (grid_positions r c) = {p. 0 \<le> row p \<and> row p < r \<and> 0 \<le> col p \<and> col p < c}"
proof (rule set_eqI)
  fix p
  obtain i j where p: "p = Position i j" by (cases p)
  show "p \<in> set (grid_positions r c) \<longleftrightarrow>
        p \<in> {p. 0 \<le> row p \<and> row p < r \<and> 0 \<le> col p \<and> col p < c}"
  proof
    assume "p \<in> set (grid_positions r c)"
    then show "p \<in> {p. 0 \<le> row p \<and> row p < r \<and> 0 \<le> col p \<and> col p < c}"
      unfolding p by (auto simp: grid_positions_def)
  next
    assume "p \<in> {p. 0 \<le> row p \<and> row p < r \<and> 0 \<le> col p \<and> col p < c}"
    then have "i \<in> {0..r - 1}" "j \<in> {0..c - 1}" unfolding p by auto
    then have "\<exists>x\<in>{0..r - 1}. Position i j \<in> Position x ` {0..c - 1}" by blast
    then show "p \<in> set (grid_positions r c)"
      unfolding p by (simp add: grid_positions_def)
  qed
qed

lemma distinct_grid_positions: "distinct (grid_positions r c)"
proof (cases "0 < c")
  case True
  show ?thesis unfolding grid_positions_def
  proof (rule distinct_concat)
    show "distinct (map (\<lambda>i. map (Position i) [0..c - 1]) [0..r - 1])"
      using True by (auto simp: distinct_map inj_on_def)
  qed (auto simp: distinct_map inj_on_def)
next
  case False
  then have "[0..c - 1] = []" by simp
  then have "grid_positions r c = concat (map (\<lambda>i. []) [0..r - 1])"
    unfolding grid_positions_def by simp
  also have "\<dots> = []" by (induction "[0..r - 1]") auto
  finally show ?thesis by simp
qed

lemma length_grid_positions: "length (grid_positions r c) = nat r * nat c"
proof -
  have "length (grid_positions r c) = (\<Sum>i\<leftarrow>[0..r - 1]. nat c)"
    by (simp add: grid_positions_def length_concat comp_def)
  also have "\<dots> = nat r * nat c" by (simp add: sum_list_triv)
  finally show ?thesis .
qed

lemma neighbors_in_grid: "n \<in> neighbors p (rows g) (cols g) \<Longrightarrow> in_grid g n"
  using neighbors_list_in_grid[of n p "rows g" "cols g"] by (simp add: neighbors_def in_grid_def)

lemma set_available:
  "set (available g p) = {q. in_grid g q} - safe_zone g p"
  by (auto simp: available_def set_grid_positions in_grid_def)

lemma distinct_available: "distinct (available g p)"
  by (simp add: available_def distinct_grid_positions)

lemma safe_zone_in_grid: "in_grid g p \<Longrightarrow> safe_zone g p \<subseteq> {q. in_grid g q}"
  using neighbors_in_grid by (auto simp: safe_zone_def)

lemma grid_cells: "in_grid g p \<Longrightarrow> int (card {q. in_grid g q}) = rows g * cols g"
proof -
  assume a: "in_grid g p"
  then have pos: "0 < rows g" "0 < cols g" by (auto simp: in_grid_def)
  have "{q. in_grid g q} = set (grid_positions (rows g) (cols g))"
    by (simp add: set_grid_positions in_grid_def)
  then have "card {q. in_grid g q} = nat (rows g) * nat (cols g)"
    by (simp add: distinct_card distinct_grid_positions length_grid_positions)
  then show ?thesis using pos by (simp add: nat_mult_distrib)
qed

lemma length_available:
  assumes "in_grid g p"
  shows "int (length (available g p)) = rows g * cols g - int (card (safe_zone g p))"
proof -
  have fin: "finite {q. in_grid g q}" by (rule finite_in_grid)
  have sub: "safe_zone g p \<subseteq> {q. in_grid g q}" using assms by (rule safe_zone_in_grid)
  have "length (available g p) = card ({q. in_grid g q} - safe_zone g p)"
    using distinct_card[OF distinct_available, of g p] by (simp add: set_available)
  also have "\<dots> = card {q. in_grid g q} - card (safe_zone g p)"
    using sub fin by (simp add: card_Diff_subset finite_subset)
  finally have "int (length (available g p)) = int (card {q. in_grid g q}) - int (card (safe_zone g p))"
    using card_mono[OF fin sub] by simp
  then show ?thesis using grid_cells[OF assms] by simp
qed

lemma initialize_mines_raises:
  "total_mines g < 0 \<Longrightarrow> initialize_mines w g p = Inl ValueError"
  by (simp add: initialize_mines_def random_sample_def min_def)

lemma initialize_mines_returns:
  assumes "0 \<le> total_mines g"
  shows "initialize_mines w g p =
           Inr ((cache_adjacent_counts
                   (g\<lparr>mines := set (sample (sample_seed w) (available g p)
                         (nat (min (total_mines g) (int (length (available g p))))))\<rparr>))
                 \<lparr>state := PLAYING, start_time := clock_init w\<rparr>)"
  using assms by (simp add: initialize_mines_def random_sample_def)

lemma mines_initialize:
  assumes "initialize_mines w g p = Inr g'"
  shows "mines g' = set (sample (sample_seed w) (available g p)
                         (nat (min (total_mines g) (int (length (available g p))))))"
    and "rows g' = rows g" and "cols g' = cols g" and "state g' = PLAYING"
    and "revealed g' = revealed g" and "flags g' = flags g" and "total_mines g' = total_mines g"
    and "cell_states g' = cell_states g" and "start_time g' = clock_init w"
  using assms
  by (auto simp: initialize_mines_def random_sample_def cache_adjacent_counts_def
      split: if_splits)

lemma mines_initialize_available:
  "initialize_mines w g p = Inr g' \<Longrightarrow> mines g' \<subseteq> {q. in_grid g q} - safe_zone g p"
  using set_sample[of "sample_seed w" "available g p"] by (auto simp: mines_initialize(1) set_available)

section \<open>Safe first click and mine count\<close>

text \<open>A world used for the concrete runs below.\<close>

definition world_a :: world where
  "world_a = \<lparr>sample_seed = [0, 0], clock_init = 5, clock_end = 9,
              iteration_rank = (\<lambda>p. 0)\<rparr>"

text \<open>
  Claim C1 (safe first click). Whatever the grid, the first-click position and the random
  numbers are: when \<^verbatim>\<open>initialize_mines\<close> returns, neither the first-clicked cell nor
  any of its neighbors is in the mine set. It raises (and places nothing) only when the
  mine count of the engine is negative.
\<close>

theorem safe_first_click:
  "case initialize_mines w g first_click of
     Inl e \<Rightarrow> total_mines g < 0
   | Inr g' \<Rightarrow> first_click \<notin> mines g'
       \<and> neighbors first_click (rows g') (cols g') \<inter> mines g' = {}"
proof (cases "initialize_mines w g first_click")
  case (Inl e)
  then have "total_mines g < 0"
    using initialize_mines_returns[of g w first_click] by (cases "0 \<le> total_mines g") auto
  with Inl show ?thesis by simp
next
  case (Inr g')
  have "mines g' \<inter> safe_zone g first_click = {}"
    using mines_initialize_available[OF Inr] by auto
  then show ?thesis using Inr by (auto simp: safe_zone_def mines_initialize(2,3)[OF Inr])
qed

theorem safe_first_click_witness:
  "\<not> isl (initialize_mines world_a (new_game 1 6 2) (Position 0 0))
   \<and> (case initialize_mines world_a (new_game 1 6 2) (Position 0 0) of
        Inl e \<Rightarrow> total_mines (new_game 1 6 2) < 0
      | Inr g' \<Rightarrow> Position 0 0 \<notin> mines g'
          \<and> neighbors (Position 0 0) (rows g') (cols g') \<inter> mines g' = {})"
proof -
  have "\<not> isl (initialize_mines world_a (new_game 1 6 2) (Position 0 0))"
    unfolding world_a_def new_game_def by code_simp
  then show ?thesis
    using safe_first_click[where w = world_a and g = "new_game 1 6 2" and first_click = "Position 0 0"] by simp
qed

text \<open>
  Claim C6 (mine count), as amended. For a grid with a non-negative mine count and an
  in-bounds first click, \<^verbatim>\<open>initialize_mines\<close> returns and the number of mines placed is
  \<open>min(total_mines, rows * cols - safe_zone_size)\<close>. With a negative mine count
  \<^verbatim>\<open>random.sample\<close> raises \<^verbatim>\<open>ValueError\<close> and no mine is placed, while the claimed
  count is negative.
\<close>

theorem mine_count:
  assumes "0 \<le> total_mines g" and "in_grid g first_click"
  shows "\<exists>g'. initialize_mines w g first_click = Inr g'
           \<and> int (card (mines g')) =
               min (total_mines g) (rows g * cols g - int (card (safe_zone g first_click)))"
proof -
  let ?av = "available g first_click"
  let ?k = "nat (min (total_mines g) (int (length ?av)))"
  obtain g' where g': "initialize_mines w g first_click = Inr g'"
    using initialize_mines_returns[OF assms(1)] by blast
  have "?k \<le> length ?av" by simp
  then have "card (set (sample (sample_seed w) ?av ?k)) = ?k"
    using distinct_available by (rule card_sample[rotated])
  then have "int (card (mines g')) = min (total_mines g) (int (length ?av))"
    using assms(1) by (simp add: mines_initialize(1)[OF g'])
  then show ?thesis using g' length_available[OF assms(2)] by simp
qed

theorem mine_count_witness:
  "0 \<le> total_mines (new_game 1 6 2) \<and> in_grid (new_game 1 6 2) (Position 0 0)
   \<and> (\<exists>g'. initialize_mines world_a (new_game 1 6 2) (Position 0 0) = Inr g'
           \<and> int (card (mines g')) = 2)"
proof -
  have h1: "0 \<le> total_mines (new_game 1 6 2)" by (simp add: new_game_def)
  have h2: "in_grid (new_game 1 6 2) (Position 0 0)" by (simp add: new_game_def in_grid_def)
  have "card (safe_zone (new_game 1 6 2) (Position 0 0)) = 2"
    unfolding new_game_def by code_simp
  then have "min (total_mines (new_game 1 6 2))
          (rows (new_game 1 6 2) * cols (new_game 1 6 2)
             - int (card (safe_zone (new_game 1 6 2) (Position 0 0)))) = 2"
    by (simp add: new_game_def)
  then show ?thesis using h1 h2 mine_count[OF h1 h2, where w = world_a] by simp
qed

theorem mine_count_counterexample:
  "in_grid (new_game 1 1 (- 1)) (Position 0 0)
   \<and> initialize_mines world_a (new_game 1 1 (- 1)) (Position 0 0) = Inl ValueError
   \<and> mines (apply_call world_a (new_game 1 1 (- 1)) (Reveal_cell (Position 0 0))) = {}
   \<and> min (total_mines (new_game 1 1 (- 1)))
        (rows (new_game 1 1 (- 1)) * cols (new_game 1 1 (- 1))
           - int (card (safe_zone (new_game 1 1 (- 1)) (Position 0 0)))) = - 1"
proof -
  have a: "initialize_mines world_a (new_game 1 1 (- 1)) (Position 0 0) = Inl ValueError"
    by (rule initialize_mines_raises) (simp add: new_game_def)
  have b: "card (safe_zone (new_game 1 1 (- 1)) (Position 0 0)) = 1"
    unfolding new_game_def by code_simp
  show ?thesis using a b by (simp add: new_game_def in_grid_def reveal_cell_def)
qed

section \<open>The fill loop keeps everything but the revealed cells\<close>

lemma mark_revealed_frame [simp]:
  "rows (mark_revealed g c) = rows g" "cols (mark_revealed g c) = cols g"
  "total_mines (mark_revealed g c) = total_mines g" "state (mark_revealed g c) = state g"
  "start_time (mark_revealed g c) = start_time g"
  "elapsed_time (mark_revealed g c) = elapsed_time g"
  "mines (mark_revealed g c) = mines g" "flags (mark_revealed g c) = flags g"
  "adjacent_cache (mark_revealed g c) = adjacent_cache g"
  by (simp_all add: mark_revealed_def)

lemma cache_get_mark [simp]: "cache_get (mark_revealed g c) = cache_get g"
  by (simp add: cache_get_def fun_eq_iff)

lemma cell_state_mark:
  "cell_state (mark_revealed g c) p = (if p = c then REVEALED else cell_state g p)"
  by (simp add: cell_state_def mark_revealed_def)

lemma flood_fill_frame:
  "rows (flood_fill g ws) = rows g \<and> cols (flood_fill g ws) = cols g
   \<and> total_mines (flood_fill g ws) = total_mines g \<and> state (flood_fill g ws) = state g
   \<and> start_time (flood_fill g ws) = start_time g
   \<and> elapsed_time (flood_fill g ws) = elapsed_time g
   \<and> mines (flood_fill g ws) = mines g \<and> flags (flood_fill g ws) = flags g
   \<and> adjacent_cache (flood_fill g ws) = adjacent_cache g"
  by (induction g ws rule: flood_fill.induct) simp_all

lemmas flood_fill_rows [simp] = flood_fill_frame[THEN conjunct1]
lemmas flood_fill_cols [simp] = flood_fill_frame[THEN conjunct2, THEN conjunct1]
lemmas flood_fill_total_mines [simp] =
  flood_fill_frame[THEN conjunct2, THEN conjunct2, THEN conjunct1]
lemmas flood_fill_state [simp] =
  flood_fill_frame[THEN conjunct2, THEN conjunct2, THEN conjunct2, THEN conjunct1]
lemmas flood_fill_start_time [simp] =
  flood_fill_frame[THEN conjunct2, THEN conjunct2, THEN conjunct2, THEN conjunct2, THEN conjunct1]
lemmas flood_fill_elapsed_time [simp] =
  flood_fill_frame[THEN conjunct2, THEN conjunct2, THEN conjunct2, THEN conjunct2,
    THEN conjunct2, THEN conjunct1]
lemmas flood_fill_mines [simp] =
  flood_fill_frame[THEN conjunct2, THEN conjunct2, THEN conjunct2, THEN conjunct2,
    THEN conjunct2, THEN conjunct2, THEN conjunct1]
lemmas flood_fill_flags [simp] =
  flood_fill_frame[THEN conjunct2, THEN conjunct2, THEN conjunct2, THEN conjunct2,
    THEN conjunct2, THEN conjunct2, THEN conjunct2, THEN conjunct1]
lemmas flood_fill_adjacent_cache [simp] =
  flood_fill_frame[THEN conjunct2, THEN conjunct2, THEN conjunct2, THEN conjunct2,
    THEN conjunct2, THEN conjunct2, THEN conjunct2, THEN conjunct2]

lemma flood_fill_revealed_mono: "revealed g \<subseteq> revealed (flood_fill g ws)"
  by (induction g ws rule: flood_fill.induct) auto

lemma flood_fill_cell_state_hidden:
  "p \<notin> revealed (flood_fill g ws) \<Longrightarrow> cell_state (flood_fill g ws) p = cell_state g p"
proof (induction g ws rule: flood_fill.induct)
  case (1 g)
  then show ?case by simp
next
  case (2 g current to_reveal)
  have "p \<noteq> current" if "current \<notin> revealed g"
    using 2(4) that flood_fill_revealed_mono[of "mark_revealed g current"]
    by (auto split: if_splits)
  then show ?case using 2 by (auto simp: cell_state_mark split: if_splits)
qed

lemma flood_fill_head_revealed: "pos \<in> revealed (flood_fill g (pos # ws))"
  using flood_fill_revealed_mono[of g ws] flood_fill_revealed_mono[of "mark_revealed g pos"]
  by (auto split: if_splits)

section \<open>Win condition\<close>

definition ended :: "game \<Rightarrow> bool" where
  "ended g \<longleftrightarrow> state g = WON \<or> state g = LOST"

lemma reveal_placed_noop:
  "ended g \<or> pos \<in> revealed g \<or> pos \<in> flags g \<Longrightarrow> reveal_placed w g pos = (False, g)"
  by (cases "state g") (auto simp: reveal_placed_def ended_def)

lemma reveal_placed_mine:
  "\<not> ended g \<Longrightarrow> pos \<notin> revealed g \<Longrightarrow> pos \<notin> flags g \<Longrightarrow> pos \<in> mines g \<Longrightarrow>
   reveal_placed w g pos = (False, g\<lparr>state := LOST, elapsed_time := clock_end w - start_time g\<rparr>)"
  by (cases "state g") (auto simp: reveal_placed_def ended_def)

lemma reveal_placed_safe:
  "\<not> ended g \<Longrightarrow> pos \<notin> revealed g \<Longrightarrow> pos \<notin> flags g \<Longrightarrow> pos \<notin> mines g \<Longrightarrow>
   reveal_placed w g pos =
     (let g' = flood_fill g [pos] in
        if int (card (revealed g')) + int (card (mines g')) = rows g' * cols g'
        then (True, g'\<lparr>state := WON, elapsed_time := clock_end w - start_time g',
                         flags := mines g'\<rparr>)
        else (True, g'))"
  by (cases "state g") (auto simp: reveal_placed_def ended_def)

lemma reveal_placed_won:
  assumes "state g \<noteq> WON" and "reveal_placed w g pos = (b, g')"
  shows "(state g' = WON \<longleftrightarrow>
            b \<and> int (card (revealed g')) + int (card (mines g')) = rows g' * cols g')
         \<and> (state g' = WON \<longrightarrow>
              elapsed_time g' = clock_end w - start_time g' \<and> flags g' = mines g')"
proof (cases "ended g \<or> pos \<in> revealed g \<or> pos \<in> flags g")
  case True
  then show ?thesis using assms reveal_placed_noop[OF True, of w] by auto
next
  case False
  show ?thesis
  proof (cases "pos \<in> mines g")
    case True
    then show ?thesis using False assms reveal_placed_mine[of g pos w] by auto
  next
    case nm: False
    then show ?thesis using False assms reveal_placed_safe[of g pos w]
      by (auto simp: Let_def ended_def split: if_splits)
  qed
qed

text \<open>
  Claim C2 (win condition). A call of \<^verbatim>\<open>reveal_cell\<close> on a game that is not yet won
  ends in state \<^verbatim>\<open>WON\<close> exactly when it ran its flood fill (it returns \<^verbatim>\<open>True\<close>) and
  afterwards the number of revealed cells plus the number of mines equals
  \<open>rows * cols\<close>. On that transition the elapsed time is frozen to the clock reading minus
  the start time and the flag set becomes the mine set. On a 9 by 9 board with 10 mines
  the game is won with exactly 71 revealed cells.
\<close>

theorem win_condition:
  assumes "state g \<noteq> WON" and "reveal_cell w g pos = Inr (b, g')"
  shows "(state g' = WON \<longleftrightarrow>
            b \<and> int (card (revealed g')) + int (card (mines g')) = rows g' * cols g')
         \<and> (state g' = WON \<longrightarrow>
              elapsed_time g' = clock_end w - start_time g' \<and> flags g' = mines g')
         \<and> (state g' = WON \<and> rows g' = 9 \<and> cols g' = 9 \<and> card (mines g') = 10
              \<longrightarrow> card (revealed g') = 71)"
proof -
  obtain g1 where g1: "state g1 \<noteq> WON" "reveal_placed w g1 pos = (b, g')"
  proof (cases "state g = READY")
    case True
    then obtain g1 where i: "initialize_mines w g pos = Inr g1"
      using assms(2) by (auto simp: reveal_cell_def split: sum.splits)
    then have "reveal_placed w g1 pos = (b, g')" using True assms(2) by (simp add: reveal_cell_def)
    moreover have "state g1 \<noteq> WON" using mines_initialize(4)[OF i] by simp
    ultimately show ?thesis using that by blast
  next
    case False
    then show ?thesis using assms that by (simp add: reveal_cell_def)
  qed
  note w = reveal_placed_won[OF g1]
  have "card (revealed g') = 71"
    if "state g' = WON" "rows g' = 9" "cols g' = 9" "card (mines g') = 10"
    using w that by simp
  then show ?thesis using w by blast
qed


section \<open>Invariants of reachable engines\<close>

definition consistent :: "game \<Rightarrow> bool" where
  "consistent g \<longleftrightarrow>
     (state g = READY \<longrightarrow> mines g = {} \<and> revealed g = {} \<and> flags g = {})
     \<and> (state g = READY \<or> state g = PLAYING \<longrightarrow>
          (\<forall>p. p \<notin> revealed g \<longrightarrow>
                cell_state g p = (if p \<in> flags g then FLAGGED else HIDDEN)))"

lemma consistent_new_game: "consistent (new_game r c m)"
  by (simp add: consistent_def new_game_def cell_state_def)

lemma consistent_reset: "consistent (reset g)"
  by (simp add: consistent_def reset_def cell_state_def)

lemma consistent_toggle_flag: "consistent g \<Longrightarrow> consistent (toggle_flag g p)"
  by (auto simp: consistent_def toggle_flag_def cell_state_def Let_def)

lemma consistent_initialize_mines:
  assumes "consistent g" and "state g = READY" and "initialize_mines w g p = Inr g'"
  shows "consistent g'"
  using assms(1,2) mines_initialize[OF assms(3)]
  by (simp add: consistent_def cell_state_def)

lemma consistent_reveal_placed:
  assumes "consistent g" and "state g \<noteq> READY"
  shows "consistent (snd (reveal_placed w g pos))"
proof (cases "ended g \<or> pos \<in> revealed g \<or> pos \<in> flags g")
  case True
  then show ?thesis using assms reveal_placed_noop[OF True, of w] by simp
next
  case False
  show ?thesis
  proof (cases "pos \<in> mines g")
    case True
    then show ?thesis using False reveal_placed_mine[of g pos w]
      by (simp add: consistent_def)
  next
    case nm: False
    have pl: "state g = PLAYING" using False assms(2) by (cases "state g") (auto simp: ended_def)
    have "consistent (flood_fill g [pos])"
      unfolding consistent_def
    proof (intro conjI impI allI)
      fix p assume "p \<notin> revealed (flood_fill g [pos])"
      then have "cell_state (flood_fill g [pos]) p = cell_state g p" "p \<notin> revealed g"
        using flood_fill_cell_state_hidden flood_fill_revealed_mono by blast+
      then show "cell_state (flood_fill g [pos]) p
                   = (if p \<in> flags (flood_fill g [pos]) then FLAGGED else HIDDEN)"
        using assms(1) pl by (simp add: consistent_def del: flood_fill.simps)
    qed (use pl in \<open>simp_all del: flood_fill.simps\<close>)
    then show ?thesis using False nm reveal_placed_safe[of g pos w]
      by (auto simp: Let_def consistent_def simp del: flood_fill.simps)
  qed
qed

lemma reveal_placed_not_ready:
  "state g \<noteq> READY \<Longrightarrow> state (snd (reveal_placed w g pos)) \<noteq> READY"
  by (auto simp: reveal_placed_def Let_def)

lemma reveal_cell_not_ready:
  "state g \<noteq> READY \<Longrightarrow> reveal_cell w g pos = Inr (reveal_placed w g pos)"
  by (simp add: reveal_cell_def)

lemma consistent_reveal_cell:
  assumes "consistent g" and "reveal_cell w g pos = Inr (b, g')"
  shows "consistent g'"
proof (cases "state g = READY")
  case True
  then obtain g1 where i: "initialize_mines w g pos = Inr g1"
    and r: "reveal_placed w g1 pos = (b, g')"
    using assms(2) by (auto simp: reveal_cell_def split: sum.splits)
  have "consistent g1" using assms(1) True i by (rule consistent_initialize_mines)
  moreover have "state g1 \<noteq> READY" using mines_initialize(4)[OF i] by simp
  ultimately have "consistent (snd (reveal_placed w g1 pos))" by (rule consistent_reveal_placed)
  then show ?thesis using r by simp
next
  case False
  then have "reveal_placed w g pos = (b, g')" using assms(2) by (simp add: reveal_cell_def)
  then show ?thesis using consistent_reveal_placed[OF assms(1) False, of w pos] by simp
qed

lemma consistent_all_reveal:
  "consistent g \<Longrightarrow> all_reveal w g ns = Inr (b, g') \<Longrightarrow> consistent g'"
proof (induction ns arbitrary: g)
  case Nil
  then show ?case by simp
next
  case (Cons n ns)
  then obtain b1 g1 where r: "reveal_cell w g n = Inr (b1, g1)"
    by (auto split: sum.splits)
  have c1: "consistent g1" using Cons.prems(1) r by (rule consistent_reveal_cell)
  show ?case
  proof (cases b1)
    case True
    then have "all_reveal w g1 ns = Inr (b, g')" using Cons.prems(2) r by simp
    then show ?thesis using c1 Cons.IH by blast
  next
    case False
    then show ?thesis using Cons.prems(2) r c1 by simp
  qed
qed

lemma consistent_auto_reveal_neighbors:
  "consistent g \<Longrightarrow> auto_reveal_neighbors w g pos = Inr (b, g') \<Longrightarrow> consistent g'"
  by (auto simp: auto_reveal_neighbors_def Let_def split: if_splits
      dest: consistent_all_reveal)

lemma consistent_apply_call: "consistent g \<Longrightarrow> consistent (apply_call w g c)"
proof (cases c)
  case (Reveal_cell p)
  assume "consistent g"
  then show ?thesis using Reveal_cell
    by (auto split: sum.splits dest: consistent_reveal_cell)
next
  case (Toggle_flag p)
  assume "consistent g"
  then show ?thesis using Toggle_flag by (simp add: consistent_toggle_flag)
next
  case (Auto_reveal_neighbors p)
  assume "consistent g"
  then show ?thesis using Auto_reveal_neighbors
    by (auto split: sum.splits dest: consistent_auto_reveal_neighbors)
next
  case Reset
  then show ?thesis by (simp add: consistent_reset)
qed

lemma reachable_consistent: "reachable g \<Longrightarrow> consistent g"
  by (induction rule: reachable.induct) (auto intro: consistent_new_game consistent_apply_call)


lemma reveal_cell_ready:
  assumes "consistent g" and "state g = READY" and "initialize_mines w g pos = Inr g1"
  shows "\<not> ended g1" "pos \<notin> revealed g1" "pos \<notin> flags g1" "pos \<notin> mines g1"
proof -
  show "\<not> ended g1" using mines_initialize(4)[OF assms(3)] by (simp add: ended_def)
  show "pos \<notin> revealed g1" "pos \<notin> flags g1"
    using assms(1,2) mines_initialize(5,6)[OF assms(3)] by (simp_all add: consistent_def)
  show "pos \<notin> mines g1"
    using mines_initialize_available[OF assms(3)] by (auto simp: safe_zone_def)
qed

section \<open>What reveal_cell returns\<close>

text \<open>
  Claim C4 (result of \<^verbatim>\<open>reveal_cell\<close>). On every reachable engine, \<^verbatim>\<open>reveal_cell\<close>
  returns \<^verbatim>\<open>False\<close> exactly when (a) the game has ended, or the cell is already revealed,
  or it is flagged, and then the engine is left unchanged; or (b) the cell is an
  unrevealed, unflagged mine, and then the state becomes \<^verbatim>\<open>LOST\<close> and the elapsed time
  is frozen. In every other case it returns \<^verbatim>\<open>True\<close>. The only raise is the
  \<^verbatim>\<open>ValueError\<close> of the first reveal of an engine built with a negative mine count.
\<close>

theorem reveal_cell_result:
  assumes "reachable g"
  shows "case reveal_cell w g pos of
           Inl e \<Rightarrow> state g = READY \<and> total_mines g < 0
         | Inr (b, g') \<Rightarrow>
             (\<not> b \<longleftrightarrow> (ended g \<or> pos \<in> revealed g \<or> pos \<in> flags g)
                       \<or> (\<not> ended g \<and> pos \<notin> revealed g \<and> pos \<notin> flags g \<and> pos \<in> mines g))
             \<and> (ended g \<or> pos \<in> revealed g \<or> pos \<in> flags g \<longrightarrow> g' = g)
             \<and> (\<not> ended g \<and> pos \<notin> revealed g \<and> pos \<notin> flags g \<and> pos \<in> mines g \<longrightarrow>
                  g' = g\<lparr>state := LOST, elapsed_time := clock_end w - start_time g\<rparr>)"
proof -
  have c: "consistent g" using assms by (rule reachable_consistent)
  show ?thesis
  proof (cases "state g = READY")
    case True
    then have e: "\<not> ended g" "pos \<notin> revealed g" "pos \<notin> flags g" "pos \<notin> mines g"
      using c by (simp_all add: consistent_def ended_def)
    show ?thesis
    proof (cases "initialize_mines w g pos")
      case (Inl err)
      then have "total_mines g < 0"
        using initialize_mines_returns[of g w pos] by (cases "0 \<le> total_mines g") auto
      then show ?thesis using True Inl by (simp add: reveal_cell_def)
    next
      case (Inr g1)
      note r = reveal_cell_ready[OF c True Inr]
      have "fst (reveal_placed w g1 pos)"
        using reveal_placed_safe[OF r, of w] by (simp add: Let_def del: flood_fill.simps)
      then show ?thesis using True Inr e
        by (cases "reveal_placed w g1 pos") (simp add: reveal_cell_def)
    qed
  next
    case False
    have r: "reveal_cell w g pos = Inr (reveal_placed w g pos)"
      using False by (rule reveal_cell_not_ready)
    show ?thesis
    proof (cases "ended g \<or> pos \<in> revealed g \<or> pos \<in> flags g")
      case True
      then show ?thesis using r reveal_placed_noop[OF True, of w] by auto
    next
      case nf: False
      show ?thesis
      proof (cases "pos \<in> mines g")
        case True
        then show ?thesis using r nf reveal_placed_mine[of g pos w] by auto
      next
        case nm: False
        have "fst (reveal_placed w g pos)"
          using nf nm reveal_placed_safe[of g pos w] by (simp add: Let_def del: flood_fill.simps)
        then show ?thesis using r nf nm by (cases "reveal_placed w g pos") simp
      qed
    qed
  qed
qed

section \<open>Flags\<close>

text \<open>
  Claim C7 (\<^verbatim>\<open>toggle_flag\<close> is its own inverse). On every reachable engine that is
  \<^verbatim>\<open>PLAYING\<close> and every unrevealed position, toggling the flag twice leaves the flag set
  and the cell state of that position as they were; and \<^verbatim>\<open>toggle_flag\<close> changes nothing
  when the position is revealed or the state is not \<^verbatim>\<open>PLAYING\<close>.
\<close>

theorem toggle_flag_involution:
  assumes "reachable g"
  shows "(state g = PLAYING \<and> p \<notin> revealed g \<longrightarrow>
            flags (toggle_flag (toggle_flag g p) p) = flags g
            \<and> cell_state (toggle_flag (toggle_flag g p) p) p = cell_state g p)
         \<and> (p \<in> revealed g \<or> state g \<noteq> PLAYING \<longrightarrow> toggle_flag g p = g)"
proof -
  have c: "consistent g" using assms by (rule reachable_consistent)
  have "cell_state g p = (if p \<in> flags g then FLAGGED else HIDDEN)"
    if "state g = PLAYING" "p \<notin> revealed g"
    using c that by (simp add: consistent_def)
  then show ?thesis
    by (auto simp: toggle_flag_def Let_def cell_state_def)
qed

section \<open>The first reveal\<close>

text \<open>
  Claim C10 (the first reveal succeeds), as amended. On every fresh or freshly reset
  engine (state \<^verbatim>\<open>READY\<close>) whose mine count is not negative, the first
  \<^verbatim>\<open>reveal_cell\<close> returns \<^verbatim>\<open>True\<close> and leaves the state \<^verbatim>\<open>PLAYING\<close> or \<^verbatim>\<open>WON\<close>,
  never \<^verbatim>\<open>LOST\<close>. With a negative mine count the first reveal raises
  \<^verbatim>\<open>ValueError\<close> instead of returning.
\<close>

theorem first_reveal_succeeds:
  assumes "reachable g" and "state g = READY" and "0 \<le> total_mines g"
  shows "\<exists>g'. reveal_cell w g p = Inr (True, g') \<and> (state g' = PLAYING \<or> state g' = WON)"
proof -
  have c: "consistent g" using assms(1) by (rule reachable_consistent)
  obtain g1 where i: "initialize_mines w g p = Inr g1"
    using initialize_mines_returns[OF assms(3)] by blast
  note r = reveal_cell_ready[OF c assms(2) i]
  have s: "state g1 = PLAYING" using mines_initialize(4)[OF i] .
  have "fst (reveal_placed w g1 p)"
    and "state (snd (reveal_placed w g1 p)) = PLAYING \<or> state (snd (reveal_placed w g1 p)) = WON"
    using reveal_placed_safe[OF r, of w] s by (simp_all add: Let_def del: flood_fill.simps)
  moreover have "reveal_cell w g p = Inr (reveal_placed w g1 p)"
    using assms(2) i by (simp add: reveal_cell_def)
  ultimately show ?thesis by (cases "reveal_placed w g1 p") auto
qed


lemma reachable_run: "reachable g \<Longrightarrow> reachable (run g cs)"
proof (induction cs arbitrary: g)
  case Nil
  then show ?case by simp
next
  case (Cons a cs)
  obtain w c where a: "a = (w, c)" by (cases a)
  have "reachable (apply_call w g c)" using Cons.prems by (rule reachable.step)
  then show ?case using Cons.IH a by simp
qed

definition game_a0 :: game where
  "game_a0 = new_game 1 6 2"

definition game_a1 :: game where
  "game_a1 = apply_call world_a game_a0 (Reveal_cell (Position 0 0))"

lemma reachable_game_a0: "reachable game_a0"
  unfolding game_a0_def by (rule reachable.fresh)

lemma reachable_game_a1: "reachable game_a1"
  unfolding game_a1_def using reachable_game_a0 by (rule reachable.step)

section \<open>Concrete runs\<close>

definition game_b0 :: game where
  "game_b0 = new_game 1 3 1"

definition game_b1 :: game where
  "game_b1 = snd (projr (reveal_cell world_a game_b0 (Position 0 0)))"

theorem win_condition_witness:
  "state game_b0 \<noteq> WON \<and> state game_b1 = WON \<and> card (revealed game_b1) = 2
   \<and> card (mines game_b1) = 1 \<and> flags game_b1 = mines game_b1
   \<and> elapsed_time game_b1 = clock_end world_a - start_time game_b1"
proof -
  have h: "state game_b0 \<noteq> WON" by code_simp
  have i: "\<not> isl (reveal_cell world_a game_b0 (Position 0 0))" by code_simp
  have f: "fst (projr (reveal_cell world_a game_b0 (Position 0 0)))" by code_simp
  obtain b g' where e: "reveal_cell world_a game_b0 (Position 0 0) = Inr (b, g')"
    using i by (cases "reveal_cell world_a game_b0 (Position 0 0)") auto
  have "b" using f e by simp
  moreover have "g' = game_b1" using e by (simp add: game_b1_def)
  ultimately have r: "reveal_cell world_a game_b0 (Position 0 0) = Inr (True, game_b1)"
    using e by simp
  have w: "state game_b1 = WON" by code_simp
  have d: "card (revealed game_b1) = 2" "card (mines game_b1) = 1" by code_simp+
  from win_condition[OF h r] w
  have "elapsed_time game_b1 = clock_end world_a - start_time game_b1 \<and> flags game_b1 = mines game_b1"
    by blast
  then show ?thesis using h w d by blast
qed


theorem reveal_cell_result_witness:
  "reachable game_a1 \<and> \<not> ended game_a1 \<and> Position 0 2 \<notin> revealed game_a1
   \<and> Position 0 2 \<notin> flags game_a1 \<and> Position 0 2 \<in> mines game_a1
   \<and> reveal_cell world_a game_a1 (Position 0 2)
       = Inr (False, game_a1\<lparr>state := LOST, elapsed_time := clock_end world_a - start_time game_a1\<rparr>)"
proof -
  have h: "\<not> ended game_a1" "Position 0 2 \<notin> revealed game_a1"
    "Position 0 2 \<notin> flags game_a1" "Position 0 2 \<in> mines game_a1"
    by code_simp+
  have n: "state game_a1 \<noteq> READY" by code_simp
  note t = reveal_cell_result[OF reachable_game_a1, where w = world_a and pos = "Position 0 2"]
  have "reveal_cell world_a game_a1 (Position 0 2)
       = Inr (False, game_a1\<lparr>state := LOST, elapsed_time := clock_end world_a - start_time game_a1\<rparr>)"
  proof (cases "reveal_cell world_a game_a1 (Position 0 2)")
    case (Inl e)
    then show ?thesis using t n by simp
  next
    case (Inr r)
    obtain b g' where r: "r = (b, g')" by (cases r)
    have "\<not> b" and "g' = game_a1\<lparr>state := LOST, elapsed_time := clock_end world_a - start_time game_a1\<rparr>"
      using t h unfolding Inr r by simp_all
    then show ?thesis using Inr r by simp
  qed
  then show ?thesis using h reachable_game_a1 by blast
qed

theorem toggle_flag_involution_witness:
  "reachable game_a1 \<and> state game_a1 = PLAYING \<and> Position 0 4 \<notin> revealed game_a1
   \<and> flags (toggle_flag (toggle_flag game_a1 (Position 0 4)) (Position 0 4)) = flags game_a1
   \<and> cell_state (toggle_flag (toggle_flag game_a1 (Position 0 4)) (Position 0 4)) (Position 0 4)
       = cell_state game_a1 (Position 0 4)
   \<and> Position 0 0 \<in> revealed game_a1 \<and> toggle_flag game_a1 (Position 0 0) = game_a1"
proof -
  have h: "state game_a1 = PLAYING" "Position 0 4 \<notin> revealed game_a1"
    "Position 0 0 \<in> revealed game_a1"
    by code_simp+
  show ?thesis
    using h reachable_game_a1
      toggle_flag_involution[OF reachable_game_a1, where p = "Position 0 4"]
      toggle_flag_involution[OF reachable_game_a1, where p = "Position 0 0"]
    by blast
qed

theorem first_reveal_succeeds_witness:
  "reachable game_a0 \<and> state game_a0 = READY \<and> 0 \<le> total_mines game_a0
   \<and> (\<exists>g'. reveal_cell world_a game_a0 (Position 0 0) = Inr (True, g')
            \<and> (state g' = PLAYING \<or> state g' = WON))"
proof -
  have h: "state game_a0 = READY" "0 \<le> total_mines game_a0"
    by (simp_all add: game_a0_def new_game_def)
  show ?thesis
    using h reachable_game_a0 first_reveal_succeeds[OF reachable_game_a0 h] by blast
qed

theorem first_reveal_succeeds_counterexample:
  "reachable (new_game 1 1 (- 1)) \<and> state (new_game 1 1 (- 1)) = READY
   \<and> in_grid (new_game 1 1 (- 1)) (Position 0 0)
   \<and> reveal_cell world_a (new_game 1 1 (- 1)) (Position 0 0) = Inl ValueError"
proof -
  have a: "initialize_mines world_a (new_game 1 1 (- 1)) (Position 0 0) = Inl ValueError"
    by (rule initialize_mines_raises) (simp add: new_game_def)
  have s: "state (new_game 1 1 (- 1)) = READY" by (simp add: new_game_def)
  have "reveal_cell world_a (new_game 1 1 (- 1)) (Position 0 0) = Inl ValueError"
    using a s by (simp add: reveal_cell_def)
  moreover have "in_grid (new_game 1 1 (- 1)) (Position 0 0)"
    by (simp add: in_grid_def new_game_def)
  ultimately show ?thesis using s reachable.fresh by blast
qed

section \<open>Sessions whose calls stay inside the grid\<close>

fun call_in_grid :: "game \<Rightarrow> call \<Rightarrow> bool" where
  "call_in_grid g (Reveal_cell p) = in_grid g p"
| "call_in_grid g (Toggle_flag p) = in_grid g p"
| "call_in_grid g (Auto_reveal_neighbors p) = in_grid g p"
| "call_in_grid g Reset = True"

inductive reachable_in_grid :: "game \<Rightarrow> bool" where
  fresh_in_grid: "reachable_in_grid (new_game r c m)"
| step_in_grid:
    "reachable_in_grid g \<Longrightarrow> call_in_grid g c \<Longrightarrow> reachable_in_grid (apply_call w g c)"

definition cache_correct :: "game \<Rightarrow> bool" where
  "cache_correct g \<longleftrightarrow>
     (\<forall>p. in_grid g p \<longrightarrow>
           cache_get g p = int (card (neighbors p (rows g) (cols g) \<inter> mines g)))"

definition sound :: "game \<Rightarrow> bool" where
  "sound g \<longleftrightarrow>
     revealed g \<subseteq> {p. in_grid g p} \<and> flags g \<subseteq> {p. in_grid g p}
     \<and> mines g \<subseteq> {p. in_grid g p}
     \<and> revealed g \<inter> mines g = {} \<and> flags g \<inter> revealed g = {}
     \<and> (state g = READY \<longrightarrow> mines g = {} \<and> revealed g = {} \<and> flags g = {})
     \<and> (state g \<noteq> READY \<longrightarrow> cache_correct g)"

lemma in_grid_cong: "rows g' = rows g \<Longrightarrow> cols g' = cols g \<Longrightarrow> in_grid g' = in_grid g"
  by (simp add: in_grid_def fun_eq_iff)

lemma cache_get_cache_adjacent_counts:
  "cache_get (cache_adjacent_counts g) p =
     (if in_grid g p then int (card (neighbors p (rows g) (cols g) \<inter> mines g)) else 0)"
proof -
  have "map_of (map (\<lambda>p. (p, int (card (neighbors p (rows g) (cols g) \<inter> mines g))))
          (grid_positions (rows g) (cols g))) p
        = (if p \<in> set (grid_positions (rows g) (cols g))
           then Some (int (card (neighbors p (rows g) (cols g) \<inter> mines g))) else None)"
    by (simp add: map_of_map_restrict restrict_map_def)
  then show ?thesis
    by (simp add: cache_get_def cache_adjacent_counts_def set_grid_positions in_grid_def)
qed

lemma cache_initialize:
  assumes "initialize_mines w g p = Inr g'"
  shows "cache_correct g'"
proof -
  have g': "g' = (cache_adjacent_counts
                   (g\<lparr>mines := set (sample (sample_seed w) (available g p)
                         (nat (min (total_mines g) (int (length (available g p))))))\<rparr>))
                 \<lparr>state := PLAYING, start_time := clock_init w\<rparr>"
    using assms by (auto simp: initialize_mines_def random_sample_def split: if_splits)
  have c: "cache_get (h\<lparr>state := PLAYING, start_time := t\<rparr>) = cache_get h" for h :: game and t
    by (simp add: cache_get_def fun_eq_iff)
  show ?thesis unfolding cache_correct_def
  proof (intro allI impI)
    fix q assume "in_grid g' q"
    then have q: "in_grid (g\<lparr>mines := mines g'\<rparr>) q"
      by (simp add: in_grid_def mines_initialize(2,3)[OF assms])
    have "cache_get g' q = cache_get (cache_adjacent_counts (g\<lparr>mines := mines g'\<rparr>)) q"
      unfolding g' c by (simp add: cache_adjacent_counts_def)
    then show "cache_get g' q = int (card (neighbors q (rows g') (cols g') \<inter> mines g'))"
      using q by (simp add: cache_get_cache_adjacent_counts mines_initialize(2,3)[OF assms])
  qed
qed

lemma finite_neighbors: "finite (neighbors p r c)"
  by (simp add: neighbors_def)

lemma cache_zero_no_mine:
  assumes "cache_correct g" and "in_grid g c" and "cache_get g c = 0"
    and "n \<in> neighbors c (rows g) (cols g)"
  shows "n \<notin> mines g"
proof -
  have "card (neighbors c (rows g) (cols g) \<inter> mines g) = 0"
    using assms(1-3) by (simp add: cache_correct_def)
  then have "neighbors c (rows g) (cols g) \<inter> mines g = {}"
    using finite_neighbors[of c "rows g" "cols g"] by simp
  then show ?thesis using assms(4) by blast
qed

definition fill_closed :: "game \<Rightarrow> Position set \<Rightarrow> bool" where
  "fill_closed g Q \<longleftrightarrow>
     (\<forall>c n. c \<in> Q \<longrightarrow> cache_get g c = 0 \<longrightarrow> n \<in> neighbors c (rows g) (cols g)
            \<longrightarrow> n \<notin> flags g \<longrightarrow> n \<in> Q)"

lemma fill_closed_mark [simp]: "fill_closed (mark_revealed g c) Q = fill_closed g Q"
  by (simp add: fill_closed_def)

lemma flood_fill_revealed_subset:
  "set ws \<subseteq> Q \<Longrightarrow> fill_closed g Q \<Longrightarrow> revealed (flood_fill g ws) \<subseteq> revealed g \<union> Q"
proof (induction g ws rule: flood_fill.induct)
  case (1 g)
  then show ?case by simp
next
  case (2 g current to_reveal)
  let ?g = "mark_revealed g current"
  have cq: "current \<in> Q" and tq: "set to_reveal \<subseteq> Q" using 2(4) by auto
  have cl: "fill_closed ?g Q" using 2(5) by simp
  show ?case
  proof (cases "current \<in> revealed g")
    case True
    then show ?thesis using 2(1)[OF True tq 2(5)] by simp
  next
    case nr: False
    show ?thesis
    proof (cases "cache_get ?g current = 0")
      case True
      have "set (hidden_neighbors ?g current) \<subseteq> Q"
        using 2(5) cq True by (auto simp: hidden_neighbors_def neighbors_def fill_closed_def)
      then have "set (union_worklist to_reveal (hidden_neighbors ?g current)) \<subseteq> Q"
        using tq by (auto simp: union_worklist_def)
      from 2(2)[OF nr True this cl] show ?thesis using nr True cq by auto
    next
      case False
      from 2(3)[OF nr False tq cl] show ?thesis using nr False cq by auto
    qed
  qed
qed


lemma sound_new_game: "sound (new_game r c m)"
  by (simp add: sound_def new_game_def)

lemma sound_reset: "sound (reset g)"
  by (simp add: sound_def reset_def)

lemma sound_toggle_flag: "sound g \<Longrightarrow> in_grid g p \<Longrightarrow> sound (toggle_flag g p)"
  by (auto simp: sound_def toggle_flag_def Let_def in_grid_def cache_correct_def cache_get_def)

lemma sound_initialize_mines:
  assumes "sound g" and "state g = READY" and "initialize_mines w g p = Inr g'"
  shows "sound g'"
proof -
  note m = mines_initialize[OF assms(3)]
  have ig: "in_grid g' = in_grid g" using m(2,3) by (rule in_grid_cong)
  have "mines g' \<subseteq> {q. in_grid g q}" using mines_initialize_available[OF assms(3)] by auto
  moreover have "revealed g' = {}" "flags g' = {}" using assms(1,2) m(5,6) by (simp_all add: sound_def)
  moreover have "cache_correct g'" using assms(3) by (rule cache_initialize)
  ultimately show ?thesis using m(4) by (simp add: sound_def ig)
qed

lemma sound_reveal_placed:
  assumes "sound g" and "state g \<noteq> READY" and "in_grid g pos"
  shows "sound (snd (reveal_placed w g pos))"
proof (cases "ended g \<or> pos \<in> revealed g \<or> pos \<in> flags g")
  case True
  then show ?thesis using assms(1) reveal_placed_noop[OF True, of w] by simp
next
  case False
  show ?thesis
  proof (cases "pos \<in> mines g")
    case True
    have "in_grid (g\<lparr>state := LOST, elapsed_time := t\<rparr>) = in_grid g" for t
      by (simp add: in_grid_def fun_eq_iff)
    moreover have "cache_correct (g\<lparr>state := LOST, elapsed_time := t\<rparr>) = cache_correct g" for t
      by (simp add: cache_correct_def cache_get_def in_grid_def)
    ultimately show ?thesis using True False assms(1,2) reveal_placed_mine[of g pos w]
      by (simp add: sound_def)
  next
    case nm: False
    define Q where "Q = {p. in_grid g p \<and> p \<notin> mines g \<and> p \<notin> flags g}"
    define g' where "g' = flood_fill g [pos]"
    have cc: "cache_correct g" using assms(1,2) by (simp add: sound_def)
    have "fill_closed g Q"
      unfolding fill_closed_def Q_def
      using cache_zero_no_mine[OF cc] neighbors_in_grid by blast
    moreover have "set [pos] \<subseteq> Q" using assms(3) nm False by (simp add: Q_def)
    ultimately have sub: "revealed g' \<subseteq> revealed g \<union> Q"
      unfolding g'_def by (rule flood_fill_revealed_subset[rotated])
    have fr: "rows g' = rows g" "cols g' = cols g" "mines g' = mines g" "flags g' = flags g"
      "state g' = state g" "adjacent_cache g' = adjacent_cache g"
      by (simp_all add: g'_def del: flood_fill.simps)
    have ig: "in_grid g' = in_grid g" using fr(1,2) by (rule in_grid_cong)
    have cg: "cache_get g' = cache_get g" by (simp add: cache_get_def fun_eq_iff fr)
    have s': "sound g'"
      using assms(1,2) sub
      by (auto simp: sound_def fr ig Q_def cache_correct_def cg)
    have "in_grid (g'\<lparr>state := WON, elapsed_time := t, flags := mines g'\<rparr>) = in_grid g'" for t
      by (simp add: in_grid_def fun_eq_iff)
    moreover have "cache_correct (g'\<lparr>state := WON, elapsed_time := t, flags := mines g'\<rparr>)
                     = cache_correct g'" for t
      by (simp add: cache_correct_def cache_get_def in_grid_def)
    ultimately have "sound (g'\<lparr>state := WON, elapsed_time := t, flags := mines g'\<rparr>)" for t
      using s' assms(2) by (auto simp: sound_def fr)
    then show ?thesis using s' False nm reveal_placed_safe[of g pos w]
      by (simp add: Let_def g'_def[symmetric] del: flood_fill.simps)
  qed
qed

lemma reveal_placed_dims:
  "rows (snd (reveal_placed w g pos)) = rows g \<and> cols (snd (reveal_placed w g pos)) = cols g"
  by (simp add: reveal_placed_def Let_def del: flood_fill.simps)

lemma reveal_cell_dims:
  assumes "reveal_cell w g pos = Inr (b, g')"
  shows "rows g' = rows g" "cols g' = cols g"
proof -
  have "rows g' = rows g \<and> cols g' = cols g"
  proof (cases "state g = READY")
    case True
    then obtain g1 where i: "initialize_mines w g pos = Inr g1"
      and r: "reveal_placed w g1 pos = (b, g')"
      using assms by (auto simp: reveal_cell_def split: sum.splits)
    show ?thesis using reveal_placed_dims[of w g1 pos] r mines_initialize(2,3)[OF i] by simp
  next
    case False
    then have "reveal_placed w g pos = (b, g')" using assms by (simp add: reveal_cell_def)
    then show ?thesis using reveal_placed_dims[of w g pos] by simp
  qed
  then show "rows g' = rows g" "cols g' = cols g" by simp_all
qed

lemma sound_reveal_cell:
  assumes "sound g" and "in_grid g pos" and "reveal_cell w g pos = Inr (b, g')"
  shows "sound g'"
proof (cases "state g = READY")
  case True
  then obtain g1 where i: "initialize_mines w g pos = Inr g1"
    and r: "reveal_placed w g1 pos = (b, g')"
    using assms(3) by (auto simp: reveal_cell_def split: sum.splits)
  have "sound g1" using assms(1) True i by (rule sound_initialize_mines)
  moreover have "state g1 \<noteq> READY" using mines_initialize(4)[OF i] by simp
  moreover have "in_grid g1 pos"
    using assms(2) in_grid_cong[OF mines_initialize(2,3)[OF i]] by simp
  ultimately have "sound (snd (reveal_placed w g1 pos))" by (rule sound_reveal_placed)
  then show ?thesis using r by simp
next
  case False
  then have "reveal_placed w g pos = (b, g')" using assms(3) by (simp add: reveal_cell_def)
  then show ?thesis using sound_reveal_placed[OF assms(1) False assms(2), of w] by simp
qed

lemma sound_all_reveal:
  "sound g \<Longrightarrow> \<forall>n\<in>set ns. in_grid g n \<Longrightarrow> all_reveal w g ns = Inr (b, g') \<Longrightarrow> sound g'"
proof (induction ns arbitrary: g)
  case Nil
  then show ?case by simp
next
  case (Cons n ns)
  then obtain b1 g1 where r: "reveal_cell w g n = Inr (b1, g1)"
    by (auto split: sum.splits)
  have s1: "sound g1" using Cons.prems(1) _ r by (rule sound_reveal_cell) (use Cons.prems(2) in simp)
  have ig: "in_grid g1 = in_grid g" using reveal_cell_dims[OF r] by (rule in_grid_cong)
  show ?case
  proof (cases b1)
    case True
    then have "all_reveal w g1 ns = Inr (b, g')" using Cons.prems(3) r by simp
    moreover have "\<forall>n\<in>set ns. in_grid g1 n" using Cons.prems(2) ig by simp
    ultimately show ?thesis using s1 Cons.IH by blast
  next
    case False
    then show ?thesis using Cons.prems(3) r s1 by simp
  qed
qed

lemma sound_auto_reveal_neighbors:
  assumes "sound g" and "auto_reveal_neighbors w g pos = Inr (b, g')"
  shows "sound g'"
proof (cases "all_reveal w g (sort_key (iteration_rank w) (hidden_neighbors g pos)) = Inr (b, g')")
  case True
  have "\<forall>n\<in>set (sort_key (iteration_rank w) (hidden_neighbors g pos)). in_grid g n"
    using hidden_neighbors_in_grid by simp
  with assms(1) show ?thesis using True by (rule sound_all_reveal)
next
  case False
  then have "g' = g" using assms(2)
    by (auto simp: auto_reveal_neighbors_def Let_def split: if_splits)
  then show ?thesis using assms(1) by simp
qed

lemma sound_apply_call:
  assumes "sound g" and "call_in_grid g c"
  shows "sound (apply_call w g c)"
proof (cases c)
  case (Reveal_cell p)
  then show ?thesis using assms
    by (auto split: sum.splits dest: sound_reveal_cell[rotated 2])
next
  case (Toggle_flag p)
  then show ?thesis using assms by (simp add: sound_toggle_flag)
next
  case (Auto_reveal_neighbors p)
  then show ?thesis using assms
    by (auto split: sum.splits dest: sound_auto_reveal_neighbors[rotated])
next
  case Reset
  then show ?thesis by (simp add: sound_reset)
qed

lemma reachable_in_grid_sound: "reachable_in_grid g \<Longrightarrow> sound g"
  by (induction rule: reachable_in_grid.induct) (auto intro: sound_new_game sound_apply_call)

lemma reachable_in_grid_reachable: "reachable_in_grid g \<Longrightarrow> reachable g"
  by (induction rule: reachable_in_grid.induct) (auto intro: reachable.intros)


text \<open>
  Claim C8 (flags and revealed cells are disjoint), as amended. In every state reached
  from a fresh or reset engine by calls of \<^verbatim>\<open>reveal_cell\<close>, \<^verbatim>\<open>toggle_flag\<close>,
  \<^verbatim>\<open>auto_reveal_neighbors\<close> and \<^verbatim>\<open>reset\<close> whose position arguments lie in the grid, no
  position is both flagged and revealed. A reveal of a position outside the grid can
  uncover a mine, and the win that follows flags it.
\<close>

theorem flags_revealed_disjoint:
  "reachable_in_grid g \<Longrightarrow> flags g \<inter> revealed g = {}"
  using reachable_in_grid_sound[of g] by (simp add: sound_def)

text \<open>
  Claim C9 (positions stay in the grid), as amended. \<^verbatim>\<open>Position.neighbors\<close> returns
  only positions inside the bounds it is given, and no sequence of engine calls whose
  position arguments lie in the grid puts a position outside the grid into the mine
  set, the revealed set or the flag set. The engine itself never checks a position
  it is handed.
\<close>

theorem positions_in_grid:
  "(\<forall>n\<in>neighbors p max_row max_col.
       0 \<le> row n \<and> row n < max_row \<and> 0 \<le> col n \<and> col n < max_col)
   \<and> (reachable_in_grid g \<longrightarrow> mines g \<union> revealed g \<union> flags g \<subseteq> {q. in_grid g q})"
proof -
  have "mines g \<union> revealed g \<union> flags g \<subseteq> {q. in_grid g q}" if "reachable_in_grid g"
    using reachable_in_grid_sound[OF that] by (simp add: sound_def)
  then show ?thesis using neighbors_list_in_grid[of _ p max_row max_col]
    by (auto simp: neighbors_def)
qed

definition game_a2 :: game where
  "game_a2 = apply_call world_a game_a1 (Toggle_flag (Position 0 4))"

definition game_c :: game where
  "game_c = apply_call world_a game_a1 (Reveal_cell (Position (- 1) 1))"

definition game_d :: game where
  "game_d = apply_call world_a game_a0 (Reveal_cell (Position (- 1) 1))"

lemma reachable_in_grid_game_a1: "reachable_in_grid game_a1"
proof -
  have "reachable_in_grid game_a0" unfolding game_a0_def by (rule fresh_in_grid)
  moreover have "call_in_grid game_a0 (Reveal_cell (Position 0 0))"
    by (simp add: game_a0_def new_game_def in_grid_def)
  ultimately show ?thesis unfolding game_a1_def by (rule step_in_grid)
qed

lemma reachable_in_grid_game_a2: "reachable_in_grid game_a2"
proof -
  have "in_grid game_a1 (Position 0 4)" by code_simp
  then have "call_in_grid game_a1 (Toggle_flag (Position 0 4))" by simp
  with reachable_in_grid_game_a1 show ?thesis unfolding game_a2_def by (rule step_in_grid)
qed

theorem flags_revealed_disjoint_witness:
  "reachable_in_grid game_a2 \<and> Position 0 4 \<in> flags game_a2 \<and> Position 0 0 \<in> revealed game_a2
   \<and> flags game_a2 \<inter> revealed game_a2 = {}"
proof -
  have "Position 0 4 \<in> flags game_a2" "Position 0 0 \<in> revealed game_a2" by code_simp+
  then show ?thesis
    using reachable_in_grid_game_a2 flags_revealed_disjoint[OF reachable_in_grid_game_a2]
    by blast
qed

theorem flags_revealed_disjoint_counterexample:
  "reachable game_c \<and> state game_c = WON
   \<and> Position 0 2 \<in> flags game_c \<and> Position 0 2 \<in> revealed game_c"
proof -
  have "reachable game_c" unfolding game_c_def using reachable_game_a1 by (rule reachable.step)
  moreover have "state game_c = WON" "Position 0 2 \<in> flags game_c"
    "Position 0 2 \<in> revealed game_c"
    by code_simp+
  ultimately show ?thesis by blast
qed

theorem positions_in_grid_witness:
  "reachable_in_grid game_a2
   \<and> mines game_a2 \<union> revealed game_a2 \<union> flags game_a2 \<subseteq> {q. in_grid game_a2 q}
   \<and> Position 0 1 \<in> neighbors (Position 0 0) 1 6
   \<and> 0 \<le> row (Position 0 1) \<and> row (Position 0 1) < 1
   \<and> 0 \<le> col (Position 0 1) \<and> col (Position 0 1) < 6"
proof -
  have "Position 0 1 \<in> neighbors (Position 0 0) 1 6" by code_simp
  then show ?thesis
    using reachable_in_grid_game_a2
      positions_in_grid[where g = game_a2 and p = "Position 0 0" and max_row = 1 and max_col = 6]
    by blast
qed

theorem positions_in_grid_counterexample:
  "reachable game_d \<and> Position (- 1) 1 \<in> revealed game_d \<and> \<not> in_grid game_d (Position (- 1) 1)"
proof -
  have "reachable game_d" unfolding game_d_def using reachable_game_a0 by (rule reachable.step)
  moreover have "Position (- 1) 1 \<in> revealed game_d" "\<not> in_grid game_d (Position (- 1) 1)"
    by code_simp+
  ultimately show ?thesis by blast
qed

section \<open>The flood fill\<close>

text \<open>
  The cells a fill started at \<open>pos\<close> reaches: \<open>pos\<close> itself, and from a reached cell
  with cached count zero every neighbor that is neither revealed before the call nor
  flagged.
\<close>

inductive_set fill_region :: "game \<Rightarrow> Position \<Rightarrow> Position set" for g :: game and pos :: Position
  where
    seed: "pos \<in> fill_region g pos"
  | grow: "c \<in> fill_region g pos \<Longrightarrow> cache_get g c = 0
            \<Longrightarrow> n \<in> neighbors c (rows g) (cols g)
            \<Longrightarrow> n \<notin> revealed g \<Longrightarrow> n \<notin> flags g \<Longrightarrow> n \<in> fill_region g pos"


text \<open>The engine after a fill that revealed the cells \<open>D\<close>.\<close>

definition filled :: "game \<Rightarrow> Position set \<Rightarrow> game" where
  "filled g D =
     g\<lparr>revealed := revealed g \<union> D,
       cell_states := (\<lambda>p. if p \<in> D then Some REVEALED else cell_states g p)\<rparr>"



lemma filled_frame [simp]:
  "rows (filled g D) = rows g" "cols (filled g D) = cols g" "flags (filled g D) = flags g"
  "revealed (filled g D) = revealed g \<union> D" "mines (filled g D) = mines g"
  "cache_get (filled g D) = cache_get g"
  by (simp_all add: filled_def cache_get_def fun_eq_iff)


























section \<open>The chord\<close>

lemma auto_reveal_neighbors_noop:
  "pos \<notin> revealed g \<or> state g \<noteq> PLAYING
     \<or> int (card (neighbors pos (rows g) (cols g) \<inter> flags g)) \<noteq> cache_get g pos
   \<Longrightarrow> auto_reveal_neighbors w g pos = Inr (False, g)"
  by (auto simp: auto_reveal_neighbors_def Let_def)

definition world_e :: world where
  "world_e = \<lparr>sample_seed = [0, 3, 3, 7], clock_init = 5, clock_end = 9,
              iteration_rank = (\<lambda>p. nat (row p))\<rparr>"

definition world_f :: world where
  "world_f = \<lparr>sample_seed = [], clock_init = 5, clock_end = 9,
              iteration_rank = (\<lambda>p. 1 - nat (row p))\<rparr>"

definition game_e :: game where
  "game_e = run (new_game 2 9 4)
     [(world_e, Reveal_cell (Position 0 6)), (world_e, Reveal_cell (Position 1 1)),
      (world_e, Reveal_cell (Position 0 1)), (world_e, Reveal_cell (Position 1 0)),
      (world_e, Toggle_flag (Position 0 0))]"

lemma reachable_game_e: "reachable game_e"
  unfolding game_e_def by (intro reachable_run reachable.fresh)

text \<open>
  Claim C5 (chord), where the code departs from it. When the chord conditions hold, the
  hidden neighbors are revealed in iteration order by \<^verbatim>\<open>all(...)\<close>, which stops at the
  first \<^verbatim>\<open>False\<close>. If revealing the first hidden neighbor succeeds and its fill also
  reveals the second one, \<^verbatim>\<open>reveal_cell\<close> on the second returns \<^verbatim>\<open>False\<close> (already
  revealed): the chord returns \<^verbatim>\<open>False\<close> with no mine hit, in the state the first
  reveal left, and the remaining hidden neighbors are not visited.
\<close>

theorem chord_short_circuit:
  assumes "state g = PLAYING" and "pos \<in> revealed g"
    and "int (card (neighbors pos (rows g) (cols g) \<inter> flags g)) = cache_get g pos"
    and "sort_key (iteration_rank w) (hidden_neighbors g pos) = n1 # n2 # ns"
    and "reveal_cell w g n1 = Inr (True, g1)" and "n2 \<in> revealed g1"
  shows "auto_reveal_neighbors w g pos = Inr (False, g1)"
proof -
  have "reveal_placed w g n1 = (True, g1)"
    using assms(1,5) by (simp add: reveal_cell_def)
  then have "state g1 \<noteq> READY"
    using reveal_placed_not_ready[of g w n1] assms(1) by simp
  then have "reveal_cell w g1 n2 = Inr (False, g1)"
    using assms(6) reveal_placed_noop[of g1 n2 w] by (simp add: reveal_cell_def)
  then have "all_reveal w g (n1 # n2 # ns) = Inr (False, g1)"
    using assms(5) by simp
  then show ?thesis
    using assms(1-4) by (simp add: auto_reveal_neighbors_def Let_def)
qed

text \<open>
  The failing input: a 2 by 9 board with mines at (0,0), (0,4), (0,8), (1,4), after
  revealing (0,6), (1,1), (0,1), (1,0) and flagging the mine (0,0). The chord on (1,1)
  meets its conditions and every flag is on a mine. Its hidden neighbors (0,2) and (1,2)
  have count zero and touch each other, so the chord returns \<^verbatim>\<open>False\<close> in either
  iteration order although no mine is hit and the game is still \<^verbatim>\<open>PLAYING\<close>.
\<close>

definition game_e1 :: game where
  "game_e1 = snd (projr (reveal_cell world_e game_e (Position 0 2)))"

theorem chord_short_circuit_witness:
  "reachable game_e \<and> state game_e = PLAYING \<and> Position 1 1 \<in> revealed game_e
   \<and> int (card (neighbors (Position 1 1) (rows game_e) (cols game_e) \<inter> flags game_e))
       = cache_get game_e (Position 1 1)
   \<and> flags game_e \<subseteq> mines game_e
   \<and> sort_key (iteration_rank world_e) (hidden_neighbors game_e (Position 1 1))
       = [Position 0 2, Position 1 2]
   \<and> reveal_cell world_e game_e (Position 0 2) = Inr (True, game_e1)
   \<and> Position 1 2 \<in> revealed game_e1
   \<and> auto_reveal_neighbors world_e game_e (Position 1 1) = Inr (False, game_e1)
   \<and> state game_e1 = PLAYING \<and> revealed game_e1 \<inter> mines game_e1 = {}
   \<and> sort_key (iteration_rank world_f) (hidden_neighbors game_e (Position 1 1))
       = [Position 1 2, Position 0 2]
   \<and> \<not> isl (auto_reveal_neighbors world_f game_e (Position 1 1))
   \<and> \<not> fst (projr (auto_reveal_neighbors world_f game_e (Position 1 1)))
   \<and> state (snd (projr (auto_reveal_neighbors world_f game_e (Position 1 1)))) = PLAYING
   \<and> revealed (snd (projr (auto_reveal_neighbors world_f game_e (Position 1 1))))
        \<inter> mines game_e = {}"
proof -
  have h: "state game_e = PLAYING" "Position 1 1 \<in> revealed game_e"
    "int (card (neighbors (Position 1 1) (rows game_e) (cols game_e) \<inter> flags game_e))
       = cache_get game_e (Position 1 1)"
    "sort_key (iteration_rank world_e) (hidden_neighbors game_e (Position 1 1))
       = [Position 0 2, Position 1 2]"
    by code_simp+
  have i: "\<not> isl (reveal_cell world_e game_e (Position 0 2))" by code_simp
  have f: "fst (projr (reveal_cell world_e game_e (Position 0 2)))" by code_simp
  obtain b g' where e: "reveal_cell world_e game_e (Position 0 2) = Inr (b, g')"
    using i by (cases "reveal_cell world_e game_e (Position 0 2)") auto
  have "b" using f e by simp
  moreover have "g' = game_e1" using e by (simp add: game_e1_def)
  ultimately have r: "reveal_cell world_e game_e (Position 0 2) = Inr (True, game_e1)"
    using e by simp
  have n: "Position 1 2 \<in> revealed game_e1" by code_simp
  have c: "auto_reveal_neighbors world_e game_e (Position 1 1) = Inr (False, game_e1)"
    using h r n by (rule chord_short_circuit)
  have "flags game_e \<subseteq> mines game_e"
    "state game_e1 = PLAYING" "revealed game_e1 \<inter> mines game_e1 = {}"
    "sort_key (iteration_rank world_f) (hidden_neighbors game_e (Position 1 1))
       = [Position 1 2, Position 0 2]"
    by code_simp+
  moreover have "\<not> isl (auto_reveal_neighbors world_f game_e (Position 1 1))"
    "\<not> fst (projr (auto_reveal_neighbors world_f game_e (Position 1 1)))"
    "state (snd (projr (auto_reveal_neighbors world_f game_e (Position 1 1)))) = PLAYING"
    "revealed (snd (projr (auto_reveal_neighbors world_f game_e (Position 1 1))))
        \<inter> mines game_e = {}"
    by code_simp+
  ultimately show ?thesis using reachable_game_e h r n c by blast
qed

end
